theory Spec2Isabelle
  imports Main
begin

section \<open>The session store of package gosh\<close>

text \<open>
  The package keeps named sessions, each a map from text keys to text values, in a
  \<open>Room\<close>. Every session has a watcher goroutine (\<open>dispatcher.watch\<close>) that is
  pinged on each access and asks for the session's deletion once no ping arrived during
  the configured lifetime; one further goroutine (\<open>Room.killWatch\<close>) carries out those
  deletions.

  The embedding follows the source function by function. A Go method that mutates the
  room takes the room and returns the new one. What a method does beyond that, namely
  sending on a channel or starting a goroutine, is returned as a list of effects in
  program order.
\<close>

subsection \<open>Data\<close>

text \<open>The three error values of the package; a \<open>nil\<close> error is \<open>None\<close>.\<close>

datatype error = ErrAlreadyExists | ErrDoesntExist | ErrKeyDoesntExist

text \<open>
  A value of type \<open>chan struct{}\<close>. \<open>NilChan\<close> is the zero value, which is what a
  lookup in \<open>r.watchers\<close> yields for a missing identifier; \<open>Chan n\<close> is the channel
  made by the \<open>n\<close>-th call of \<open>make(chan struct{}, 0)\<close>. All channels of the package
  are unbuffered.
\<close>

datatype chan = NilChan | Chan nat

type_synonym session = "string \<rightharpoonup> string"

text \<open>
  The fields of \<open>Room\<close>. The dispatcher holds nothing but the lifetime, a
  \<open>time.Duration\<close>, which the code only copies. The mutex is held for the whole body of
  every exported method, so a method body is one function from room to room; the mutex
  itself appears in the scheduling model further down. The single \<open>killer\<close> channel
  is fixed at construction and is likewise part of that model. \<open>made\<close> is not a field
  of the struct: it counts the calls of \<open>make(chan struct{}, 0)\<close> so far, which gives
  every new channel an identity different from all earlier ones.
\<close>

record Room =
  sessions :: "string \<rightharpoonup> session"
  watchers :: "string \<rightharpoonup> chan"
  dispatcher :: int
  made :: nat

text \<open>
  What a method does besides changing the room: \<open>Ping c\<close> is the send
  \<open>c <- struct{}{}\<close>, and \<open>Spawn iden c\<close> is
  \<open>go r.dispatcher.watch(iden, c, r.killer)\<close>.
\<close>

datatype effect = Ping chan | Spawn string chan

subsection \<open>Reading Go maps\<close>

text \<open>
  Indexing a Go map with a missing key yields the zero value of the element type: a
  nil inner map (which reads like an empty one), a nil channel, the empty string.
\<close>

definition session_at :: "Room \<Rightarrow> string \<Rightarrow> session" where
  "session_at r iden = (case sessions r iden of None \<Rightarrow> Map.empty | Some s \<Rightarrow> s)"

definition watcher_at :: "Room \<Rightarrow> string \<Rightarrow> chan" where
  "watcher_at r iden = (case watchers r iden of None \<Rightarrow> NilChan | Some c \<Rightarrow> c)"

definition value_at :: "Room \<Rightarrow> string \<Rightarrow> string \<Rightarrow> string" where
  "value_at r iden key = (case session_at r iden key of None \<Rightarrow> [] | Some v \<Rightarrow> v)"

subsection \<open>The methods of Room\<close>

text \<open>\<open>NewRoom\<close>; it also starts \<open>killWatch\<close>, modelled below.\<close>

definition NewRoom :: "int \<Rightarrow> Room" where
  "NewRoom live =
     \<lparr>sessions = Map.empty, watchers = Map.empty, dispatcher = live, made = 0\<rparr>"

definition Add :: "Room \<Rightarrow> string \<Rightarrow> error option \<times> Room \<times> effect list" where
  "Add r iden =
     (if sessions r iden \<noteq> None then (Some ErrAlreadyExists, r, [])
      else if watchers r iden \<noteq> None then (Some ErrAlreadyExists, r, [])
      else
        let c = Chan (made r);
            r' = r\<lparr>sessions := (sessions r)(iden \<mapsto> Map.empty),
                   watchers := (watchers r)(iden \<mapsto> c),
                   made := Suc (made r)\<rparr>
        in (None, r', [Spawn iden (watcher_at r' iden)]))"

definition accessCheck :: "Room \<Rightarrow> string \<Rightarrow> string \<Rightarrow> error option" where
  "accessCheck r iden key =
     (if sessions r iden = None then Some ErrDoesntExist
      else if watchers r iden = None then Some ErrDoesntExist
      else if key \<noteq> [] then
        (if session_at r iden key = None then Some ErrKeyDoesntExist else None)
      else None)"

definition Get :: "Room \<Rightarrow> string \<Rightarrow> string \<Rightarrow> (string \<times> error option) \<times> Room \<times> effect list" where
  "Get r iden key =
     (case accessCheck r iden key of
        Some err \<Rightarrow> (([], Some err), r, [])
      | None \<Rightarrow> ((value_at r iden key, None), r, [Ping (watcher_at r iden)]))"

text \<open>
  The assignment \<open>r.sessions[iden][key] = value\<close> writes into the inner map of
  \<open>iden\<close>. Inner maps are made one per session in \<open>Add\<close> and never shared, so the
  write is an update of that one entry. Writing into a nil inner map would panic; the
  callers reach the assignment only after \<open>accessCheck\<close> has found the session
  (lemma \<open>accessCheck_None\<close> below), and the room is left alone in that case here.
\<close>

definition assign :: "Room \<Rightarrow> string \<Rightarrow> string \<Rightarrow> string \<Rightarrow> Room" where
  "assign r iden key val =
     (case sessions r iden of
        None \<Rightarrow> r
      | Some s \<Rightarrow> r\<lparr>sessions := (sessions r)(iden \<mapsto> s(key \<mapsto> val))\<rparr>)"

text \<open>
  \<open>Set\<close> as in \<open>gosh.go\<close>: the assignment first, the ping second. The documented
  variant of the file has the two statements in the other order. The two return the same
  once the send has completed; they differ while it has not, where that variant has not
  written yet. The model follows \<open>gosh.go\<close>.
\<close>

definition Set :: "Room \<Rightarrow> string \<Rightarrow> string \<Rightarrow> string \<Rightarrow> error option \<times> Room \<times> effect list" where
  "Set r iden key val =
     (case accessCheck r iden [] of
        Some err \<Rightarrow> (Some err, r, [])
      | None \<Rightarrow>
          let r' = assign r iden key val
          in (None, r', [Ping (watcher_at r' iden)]))"

definition Del :: "Room \<Rightarrow> string \<Rightarrow> error option \<times> Room \<times> effect list" where
  "Del r iden =
     (case accessCheck r iden [] of
        Some err \<Rightarrow> (Some err, r, [])
      | None \<Rightarrow>
          (None,
           r\<lparr>sessions := (sessions r)(iden := None),
             watchers := (watchers r)(iden := None)\<rparr>,
           []))"

text \<open>
  \<open>GetBatch\<close> (only in the documented variant of the file). The loop
  \<open>for i, k := range keys\<close> runs over the keys with their index; \<open>values\<close> starts
  as \<open>len(keys)\<close> empty strings and is filled by index. A nil slice is \<open>None\<close>.
\<close>

fun GetBatch_loop ::
  "session \<Rightarrow> nat \<Rightarrow> string list \<Rightarrow> string list \<Rightarrow> string list option \<times> error option" where
  "GetBatch_loop s i [] vals = (Some vals, None)"
| "GetBatch_loop s i (k # ks) vals =
     (if s k = None then (None, Some ErrKeyDoesntExist)
      else GetBatch_loop s (Suc i) ks (vals[i := (case s k of None \<Rightarrow> [] | Some v \<Rightarrow> v)]))"

definition GetBatch ::
  "Room \<Rightarrow> string \<Rightarrow> string list \<Rightarrow> (string list option \<times> error option) \<times> Room \<times> effect list" where
  "GetBatch r iden keys =
     (case accessCheck r iden [] of
        Some err \<Rightarrow> ((None, Some err), r, [])
      | None \<Rightarrow>
          (GetBatch_loop (session_at r iden) 0 keys (replicate (length keys) []),
           r, [Ping (watcher_at r iden)]))"

subsection \<open>Calls\<close>

text \<open>
  A call of an exported method, and what it leaves behind when its return values are put
  aside: the error, the room and the effects.
\<close>

datatype call =
    CAdd string
  | CGet string string
  | CGetBatch string "string list"
  | CSet string string string
  | CDel string

fun exec :: "call \<Rightarrow> Room \<Rightarrow> error option \<times> Room \<times> effect list" where
  "exec (CAdd iden) r = Add r iden"
| "exec (CGet iden key) r = (case Get r iden key of ((v, e), r', fx) \<Rightarrow> (e, r', fx))"
| "exec (CGetBatch iden keys) r = (case GetBatch r iden keys of ((vs, e), r', fx) \<Rightarrow> (e, r', fx))"
| "exec (CSet iden key val) r = Set r iden key val"
| "exec (CDel iden) r = Del r iden"

definition err_of :: "call \<Rightarrow> Room \<Rightarrow> error option" where
  "err_of c r = fst (exec c r)"

definition room_of :: "call \<Rightarrow> Room \<Rightarrow> Room" where
  "room_of c r = fst (snd (exec c r))"

definition effects_of :: "call \<Rightarrow> Room \<Rightarrow> effect list" where
  "effects_of c r = snd (snd (exec c r))"

text \<open>The room after a sequence of calls, each run to completion.\<close>

fun run :: "call list \<Rightarrow> Room \<Rightarrow> Room" where
  "run [] r = r"
| "run (c # cs) r = run cs (room_of c r)"

subsection \<open>The watcher goroutine\<close>

text \<open>
  \<open>dispatcher.watch\<close> is a loop around a \<open>select\<close> with two cases. Which case
  a round takes is decided outside the function, by the arrival of a ping or the
  passing of \<open>left\<close>; the model takes that as input, one \<open>event\<close> per round.
  With the input used up the goroutine sits in the \<open>select\<close> with its current
  \<open>left\<close>; after \<open>return\<close> it is gone. The result also lists what was sent on
  \<open>kill\<close>.
\<close>

datatype event = Signal | Timeout

datatype timer = Armed int | Terminated

fun watch_loop :: "int \<Rightarrow> string \<Rightarrow> int \<Rightarrow> event list \<Rightarrow> timer \<times> string list" where
  "watch_loop lifetime iden left [] = (Armed left, [])"
| "watch_loop lifetime iden left (Signal # evs) = watch_loop lifetime iden lifetime evs"
| "watch_loop lifetime iden left (Timeout # evs) = (Terminated, [iden])"

definition watch :: "int \<Rightarrow> string \<Rightarrow> event list \<Rightarrow> timer \<times> string list" where
  "watch lifetime iden evs = watch_loop lifetime iden lifetime evs"

text \<open>
  The timer as the specification words it: a machine with the states armed and
  terminated, stepped by one event at a time.
\<close>

fun timer_step :: "int \<Rightarrow> string \<Rightarrow> timer \<Rightarrow> event \<Rightarrow> timer \<times> string list" where
  "timer_step lifetime iden (Armed remaining) Signal = (Armed lifetime, [])"
| "timer_step lifetime iden (Armed remaining) Timeout = (Terminated, [iden])"
| "timer_step lifetime iden Terminated ev = (Terminated, [])"

fun timer_run :: "int \<Rightarrow> string \<Rightarrow> timer \<Rightarrow> event list \<Rightarrow> timer \<times> string list" where
  "timer_run lifetime iden t [] = (t, [])"
| "timer_run lifetime iden t (ev # evs) =
     (case timer_step lifetime iden t ev of
        (t', out) \<Rightarrow>
          (case timer_run lifetime iden t' evs of (t'', out') \<Rightarrow> (t'', out @ out')))"

subsection \<open>The reaper goroutine\<close>

text \<open>
  \<open>Room.killWatch\<close> receives identifiers from \<open>r.killer\<close> for ever and calls
  \<open>r.Del\<close> on each. The body of \<open>if err != nil\<close> is empty, so the error goes
  nowhere. The model runs the loop over the identifiers received so far.
\<close>

fun killWatch :: "Room \<Rightarrow> string list \<Rightarrow> Room" where
  "killWatch r [] = r"
| "killWatch r (iden # idens) = (case Del r iden of (err, r', fx) \<Rightarrow> killWatch r' idens)"

subsection \<open>Goroutines, the mutex and the unbuffered channels\<close>

text \<open>
  The state of the whole program: the room; the goroutines started by \<open>Add\<close>, each
  with its identifier, its ping channel and its state; the reaper, which either waits
  in \<open><-r.killer\<close> (\<open>None\<close>) or has received an identifier and is calling
  \<open>r.Del\<close> with it; and the mutex. A method body up to its send runs in one step,
  as nothing else can touch the room while the mutex is held. So the mutex is visibly
  held exactly when a method is stopped in its send: \<open>sender\<close> is the channel it is
  sending on.

  A send on an unbuffered channel completes only together with a receive on the same
  channel. The only receive on a ping channel is the first \<open>select\<close> case of the
  goroutine that was started with it, and the only receive on \<open>killer\<close> is in
  \<open>killWatch\<close>.
\<close>

record sys =
  room :: Room
  sender :: "chan option"
  timers :: "(string \<times> chan \<times> timer) list"
  reaper :: "string option"

fun spawned :: "int \<Rightarrow> effect list \<Rightarrow> (string \<times> chan \<times> timer) list" where
  "spawned live [] = []"
| "spawned live (Spawn iden c # fx) = (iden, c, fst (watch live iden [])) # spawned live fx"
| "spawned live (Ping c # fx) = spawned live fx"

fun pinged :: "effect list \<Rightarrow> chan option" where
  "pinged [] = None"
| "pinged (Ping c # fx) = Some c"
| "pinged (Spawn iden c # fx) = pinged fx"

text \<open>
  The steps. \<open>Invoke c\<close>: a caller takes the free mutex and runs the method up to
  its return or up to its send. \<open>Deliver i\<close>: goroutine \<open>i\<close> takes the ping the
  stopped method is sending; the method returns and releases the mutex.
  \<open>Expire i\<close>: goroutine \<open>i\<close> takes the timeout case and hands its identifier to
  the waiting reaper. \<open>Reap\<close>: the reaper takes the free mutex and runs \<open>Del\<close>.
  \<open>None\<close> means the step cannot happen in that state.

  \<open>Expire\<close> joins the timeout with the hand-over on \<open>kill\<close>, which is unbuffered: a
  goroutine whose time has passed while the reaper is busy sits in \<open>kill <- iden\<close> and
  takes no ping either. The model keeps such a goroutine armed until the reaper is free, so
  it has fewer blocked states than the program, never more.
\<close>

datatype action = Invoke call | Deliver nat | Expire nat | Reap

fun fire :: "action \<Rightarrow> sys \<Rightarrow> sys option" where
  "fire (Invoke c) s =
     (if sender s \<noteq> None then None
      else case exec c (room s) of
        (err, r', fx) \<Rightarrow>
          Some (s\<lparr>room := r',
                  timers := timers s @ spawned (dispatcher r') fx,
                  sender := pinged fx\<rparr>))"
| "fire (Deliver i) s =
     (if i < length (timers s) then
        (case timers s ! i of
           (iden, c, Armed left) \<Rightarrow>
             (if sender s = Some c then
                Some (s\<lparr>timers := (timers s)[i := (iden, c,
                          fst (watch_loop (dispatcher (room s)) iden left [Signal]))],
                        sender := None\<rparr>)
              else None)
         | (iden, c, Terminated) \<Rightarrow> None)
      else None)"
| "fire (Expire i) s =
     (if i < length (timers s) then
        (case timers s ! i of
           (iden, c, Armed left) \<Rightarrow>
             (if reaper s = None then
                (case watch_loop (dispatcher (room s)) iden left [Timeout] of
                   (t, out) \<Rightarrow>
                     Some (s\<lparr>timers := (timers s)[i := (iden, c, t)],
                             reaper := (case out of [] \<Rightarrow> None | x # xs \<Rightarrow> Some x)\<rparr>))
              else None)
         | (iden, c, Terminated) \<Rightarrow> None)
      else None)"
| "fire Reap s =
     (case reaper s of
        None \<Rightarrow> None
      | Some iden \<Rightarrow>
          (if sender s \<noteq> None then None
           else Some (s\<lparr>room := killWatch (room s) [iden], reaper := None\<rparr>)))"

definition boot :: "int \<Rightarrow> sys" where
  "boot live = \<lparr>room = NewRoom live, sender = None, timers = [], reaper = None\<rparr>"

fun play :: "action list \<Rightarrow> sys \<Rightarrow> sys option" where
  "play [] s = Some s"
| "play (a # as) s = (case fire a s of None \<Rightarrow> None | Some s' \<Rightarrow> play as s')"

subsection \<open>Invariants\<close>

text \<open>
  The two maps of a room have the same identifiers; and every channel in \<open>watchers\<close> is
  one that \<open>make\<close> has handed out before.
\<close>

definition lockstep :: "Room \<Rightarrow> bool" where
  "lockstep r = (dom (sessions r) = dom (watchers r))"

definition wf_chans :: "Room \<Rightarrow> bool" where
  "wf_chans r = (\<forall>iden c. watchers r iden = Some c \<longrightarrow> (\<exists>n < made r. c = Chan n))"

section \<open>Basic facts\<close>

lemma accessCheck_None:
  "accessCheck r iden key = None \<Longrightarrow> sessions r iden \<noteq> None \<and> watchers r iden \<noteq> None"
  by (auto simp: accessCheck_def split: if_splits)


section \<open>Add\<close>

text \<open>
  Every call keeps the channels in \<open>watchers\<close> among those made so far, so this
  holds in every room reached from a new one.
\<close>

lemma wf_chans_exec: "wf_chans r \<Longrightarrow> wf_chans (room_of c r)"
proof (cases c)
  case (CAdd iden)
  assume "wf_chans r"
  then show ?thesis using CAdd
    by (auto simp: wf_chans_def room_of_def Add_def Let_def less_Suc_eq)
next
  case (CGet iden key)
  assume "wf_chans r"
  then show ?thesis using CGet
    by (simp add: room_of_def Get_def split: option.splits)
next
  case (CGetBatch iden keys)
  assume "wf_chans r"
  then show ?thesis using CGetBatch
    by (simp add: room_of_def GetBatch_def split: option.splits prod.splits)
next
  case (CSet iden key val)
  assume "wf_chans r"
  then show ?thesis using CSet
    by (auto simp: wf_chans_def room_of_def Set_def Let_def assign_def split: option.splits)
next
  case (CDel iden)
  assume "wf_chans r"
  then show ?thesis using CDel
    by (auto simp: wf_chans_def room_of_def Del_def split: option.splits if_splits)
qed

lemma wf_chans_run: "wf_chans (run cs (NewRoom live))"
proof -
  have "wf_chans r \<Longrightarrow> wf_chans (run cs r)" for r
    by (induction cs arbitrary: r) (simp_all add: wf_chans_exec)
  moreover have "wf_chans (NewRoom live)"
    by (simp add: wf_chans_def NewRoom_def)
  ultimately show ?thesis .
qed

text \<open>
  Claim C5. \<open>Add\<close> returns \<open>ErrAlreadyExists\<close> exactly when the identifier already has
  a session or a watcher channel, and then the room is the one it was given and nothing
  else happens. Otherwise it returns no error, the identifier gets an empty session and
  the channel just made, every other entry is as before, and one watcher is started
  with that channel; the channel is none of those in \<open>watchers\<close>, provided these all came
  from \<open>make\<close>; and a second \<open>Add\<close> of the same identifier returns
  \<open>ErrAlreadyExists\<close> and leaves the room of the first one as it is.
\<close>

theorem Add_spec:
  "case Add r iden of (err, r', fx) \<Rightarrow>
     (err = Some ErrAlreadyExists \<longleftrightarrow> sessions r iden \<noteq> None \<or> watchers r iden \<noteq> None) \<and>
     (err = None \<or> err = Some ErrAlreadyExists) \<and>
     (err = Some ErrAlreadyExists \<longrightarrow> r' = r \<and> fx = []) \<and>
     (err = None \<longrightarrow>
        sessions r' = (sessions r)(iden \<mapsto> Map.empty) \<and>
        watchers r' = (watchers r)(iden \<mapsto> Chan (made r)) \<and>
        fx = [Spawn iden (Chan (made r))] \<and>
        (wf_chans r \<longrightarrow> Chan (made r) \<notin> ran (watchers r)) \<and>
        Add r' iden = (Some ErrAlreadyExists, r', []))"
proof (cases "sessions r iden \<noteq> None \<or> watchers r iden \<noteq> None")
  case True
  then have "Add r iden = (Some ErrAlreadyExists, r, [])"
    by (auto simp: Add_def)
  with True show ?thesis by simp
next
  case False
  let ?r' = "r\<lparr>sessions := (sessions r)(iden \<mapsto> Map.empty),
               watchers := (watchers r)(iden \<mapsto> Chan (made r)),
               made := Suc (made r)\<rparr>"
  have first: "Add r iden = (None, ?r', [Spawn iden (Chan (made r))])"
    using False by (simp add: Add_def Let_def watcher_at_def)
  have again: "Add ?r' iden = (Some ErrAlreadyExists, ?r', [])"
    by (simp add: Add_def)
  have fresh: "Chan (made r) \<notin> ran (watchers r)" if "wf_chans r"
    using that by (auto simp: wf_chans_def ran_def)
  show ?thesis using False first again fresh by simp
qed

theorem Add_spec_witness:
  "(case Add (room_of (CAdd ''b'') (NewRoom 50)) ''a'' of (err, r', fx) \<Rightarrow>
      err = None \<and> wf_chans (room_of (CAdd ''b'') (NewRoom 50)) \<and>
      sessions r' ''a'' = Some Map.empty \<and> watchers r' ''a'' = Some (Chan 1) \<and>
      watchers r' ''b'' = Some (Chan 0) \<and> fx = [Spawn ''a'' (Chan 1)] \<and>
      Add r' ''a'' = (Some ErrAlreadyExists, r', [])) \<and>
   (case Add (room_of (CAdd ''b'') (NewRoom 50)) ''b'' of (err, r', fx) \<Rightarrow>
      err = Some ErrAlreadyExists \<and> r' = room_of (CAdd ''b'') (NewRoom 50) \<and> fx = [])"
  using Add_spec [of "room_of (CAdd ''b'') (NewRoom 50)" "''a''"]
    Add_spec [of "room_of (CAdd ''b'') (NewRoom 50)" "''b''"]
  by (simp add: room_of_def Add_def Let_def NewRoom_def wf_chans_def watcher_at_def)

section \<open>Failing calls\<close>

text \<open>
  Claim C7. For an identifier that is not in the session table, \<open>Get\<close>, \<open>GetBatch\<close>,
  \<open>Set\<close> and \<open>Del\<close> return \<open>ErrDoesntExist\<close>, with the room unchanged and nothing
  sent; and whatever call returns an error, of any kind, returns the room it was given.
\<close>

theorem missing_session_and_failures:
  "(sessions r iden = None \<longrightarrow>
      Get r iden key = (([], Some ErrDoesntExist), r, []) \<and>
      GetBatch r iden keys = ((None, Some ErrDoesntExist), r, []) \<and>
      Set r iden key val = (Some ErrDoesntExist, r, []) \<and>
      Del r iden = (Some ErrDoesntExist, r, [])) \<and>
   (err_of c r \<noteq> None \<longrightarrow> room_of c r = r)"
proof -
  have a: "sessions r iden = None \<Longrightarrow> accessCheck r iden k = Some ErrDoesntExist" for k
    by (simp add: accessCheck_def)
  have b: "err_of c r \<noteq> None \<Longrightarrow> room_of c r = r"
    by (cases c)
      (auto simp: err_of_def room_of_def Add_def Get_def GetBatch_def Set_def Del_def Let_def
            split: option.splits if_splits prod.splits)
  show ?thesis using a b
    by (simp add: Get_def GetBatch_def Set_def Del_def)
qed

theorem missing_session_and_failures_witness:
  "sessions (NewRoom 50) ''nope'' = None \<and>
   Get (NewRoom 50) ''nope'' ''k'' = (([], Some ErrDoesntExist), NewRoom 50, []) \<and>
   GetBatch (NewRoom 50) ''nope'' [''k''] = ((None, Some ErrDoesntExist), NewRoom 50, []) \<and>
   Set (NewRoom 50) ''nope'' ''k'' ''v'' = (Some ErrDoesntExist, NewRoom 50, []) \<and>
   Del (NewRoom 50) ''nope'' = (Some ErrDoesntExist, NewRoom 50, []) \<and>
   err_of (CGetBatch ''a'' [''k1'', ''k2''])
     (run [CAdd ''a'', CSet ''a'' ''k1'' ''v1''] (NewRoom 50)) = Some ErrKeyDoesntExist \<and>
   room_of (CGetBatch ''a'' [''k1'', ''k2''])
     (run [CAdd ''a'', CSet ''a'' ''k1'' ''v1''] (NewRoom 50)) =
     run [CAdd ''a'', CSet ''a'' ''k1'' ''v1''] (NewRoom 50)"
  using missing_session_and_failures [of "NewRoom 50" "''nope''" "''k''" "[''k'']" "''v''"
      "CGetBatch ''a'' [''k1'', ''k2'']"]
    missing_session_and_failures [of "run [CAdd ''a'', CSet ''a'' ''k1'' ''v1''] (NewRoom 50)"
      "''nope''" "''k''" "[''k'']" "''v''" "CGetBatch ''a'' [''k1'', ''k2'']"]
  by (simp add: NewRoom_def err_of_def room_of_def Add_def Set_def GetBatch_def accessCheck_def
      Let_def assign_def session_at_def watcher_at_def)

section \<open>GetBatch\<close>

text \<open>
  The loop of \<open>GetBatch\<close>, started at index \<open>i\<close> with as many keys left as
  \<open>values\<close> has places from \<open>i\<close> on, fills those places with the values of the keys,
  in their order; and it gives up with a nil slice at the first key that is missing.
\<close>

lemma GetBatch_loop_ok:
  "\<forall>k\<in>set ks. s k \<noteq> None \<Longrightarrow> i + length ks = length vals \<Longrightarrow>
   GetBatch_loop s i ks vals =
     (Some (take i vals @ map (\<lambda>k. case s k of None \<Rightarrow> [] | Some v \<Rightarrow> v) ks), None)"
proof (induction ks arbitrary: i vals)
  case Nil
  then show ?case by simp
next
  case (Cons k ks)
  then have "GetBatch_loop s (Suc i) ks (vals[i := (case s k of None \<Rightarrow> [] | Some v \<Rightarrow> v)]) =
     (Some (take (Suc i) (vals[i := (case s k of None \<Rightarrow> [] | Some v \<Rightarrow> v)]) @
        map (\<lambda>k. case s k of None \<Rightarrow> [] | Some v \<Rightarrow> v) ks), None)"
    by simp
  moreover have "take (Suc i) (vals[i := x]) = take i vals @ [x]" for x
    using Cons.prems(2) by (simp add: take_Suc_conv_app_nth)
  ultimately show ?case using Cons.prems(1) by simp
qed

lemma GetBatch_loop_missing:
  "\<exists>k\<in>set ks. s k = None \<Longrightarrow> GetBatch_loop s i ks vals = (None, Some ErrKeyDoesntExist)"
  by (induction ks arbitrary: i vals) auto

text \<open>
  Claim C3. \<open>GetBatch\<close> on an identifier without a session returns a nil slice and
  \<open>ErrDoesntExist\<close>. On a session of a room whose two maps agree, it returns the
  values of the keys, one per key and in the order of the keys, if every key is in the
  session; and a nil slice with \<open>ErrKeyDoesntExist\<close> if some key is not. A nil slice
  is \<open>None\<close>, so no value comes back with an error.
\<close>

theorem GetBatch_all_or_nothing:
  "(sessions r iden = None \<longrightarrow> fst (GetBatch r iden keys) = (None, Some ErrDoesntExist)) \<and>
   (lockstep r \<and> sessions r iden = Some s \<longrightarrow>
      ((\<forall>k\<in>set keys. s k \<noteq> None) \<longrightarrow>
         fst (GetBatch r iden keys) = (Some (map (value_at r iden) keys), None) \<and>
         (\<forall>j < length keys. s (keys ! j) = Some (map (value_at r iden) keys ! j))) \<and>
      ((\<exists>k\<in>set keys. s k = None) \<longrightarrow>
         fst (GetBatch r iden keys) = (None, Some ErrKeyDoesntExist)))"
proof -
  have a: "sessions r iden = None \<Longrightarrow> accessCheck r iden [] = Some ErrDoesntExist"
    by (simp add: accessCheck_def)
  have b: "lockstep r \<Longrightarrow> sessions r iden = Some s \<Longrightarrow> accessCheck r iden [] = None"
    by (auto simp: accessCheck_def lockstep_def)
  have c: "sessions r iden = Some s \<Longrightarrow> session_at r iden = s"
    by (simp add: session_at_def)
  have d: "sessions r iden = Some s \<Longrightarrow>
      map (\<lambda>k. case s k of None \<Rightarrow> [] | Some v \<Rightarrow> v) keys = map (value_at r iden) keys"
    by (simp add: value_at_def session_at_def)
  have e: "sessions r iden = Some s \<Longrightarrow> \<forall>k\<in>set keys. s k \<noteq> None \<Longrightarrow> j < length keys \<Longrightarrow>
      s (keys ! j) = Some (value_at r iden (keys ! j))" for j
  proof -
    assume h: "sessions r iden = Some s" "\<forall>k\<in>set keys. s k \<noteq> None" "j < length keys"
    then have "keys ! j \<in> set keys" by simp
    with h(2) obtain v where "s (keys ! j) = Some v" by auto
    with h(1) show ?thesis by (simp add: value_at_def session_at_def)
  qed
  show ?thesis
    using a b c d e GetBatch_loop_ok [of keys s 0 "replicate (length keys) []"]
      GetBatch_loop_missing [of keys s 0 "replicate (length keys) []"]
    by (auto simp: GetBatch_def)
qed

theorem GetBatch_all_or_nothing_witness:
  "lockstep (run [CAdd ''a'', CSet ''a'' ''k1'' ''v1'', CSet ''a'' ''k2'' ''v2''] (NewRoom 50)) \<and>
   fst (GetBatch (run [CAdd ''a'', CSet ''a'' ''k1'' ''v1'', CSet ''a'' ''k2'' ''v2''] (NewRoom 50))
          ''a'' [''k2'', ''k1'', ''k2'']) = (Some [''v2'', ''v1'', ''v2''], None) \<and>
   fst (GetBatch (run [CAdd ''a'', CSet ''a'' ''k1'' ''v1'', CSet ''a'' ''k2'' ''v2''] (NewRoom 50))
          ''a'' [''k1'', ''k3'', ''k2'']) = (None, Some ErrKeyDoesntExist) \<and>
   fst (GetBatch (NewRoom 50) ''a'' [''k1'']) = (None, Some ErrDoesntExist)"
  using
    GetBatch_all_or_nothing [of
      "run [CAdd ''a'', CSet ''a'' ''k1'' ''v1'', CSet ''a'' ''k2'' ''v2''] (NewRoom 50)" "''a''"
      "[''k2'', ''k1'', ''k2'']" "[''k1'' \<mapsto> ''v1'', ''k2'' \<mapsto> ''v2'']"]
    GetBatch_all_or_nothing [of
      "run [CAdd ''a'', CSet ''a'' ''k1'' ''v1'', CSet ''a'' ''k2'' ''v2''] (NewRoom 50)" "''a''"
      "[''k1'', ''k3'', ''k2'']" "[''k1'' \<mapsto> ''v1'', ''k2'' \<mapsto> ''v2'']"]
    GetBatch_all_or_nothing [of "NewRoom 50" "''a''" "[''k1'']" "Map.empty"]
  by (simp add: NewRoom_def room_of_def Add_def Set_def accessCheck_def lockstep_def
      Let_def assign_def session_at_def watcher_at_def value_at_def)

section \<open>The two maps stay in step\<close>

text \<open>
  Every call keeps \<open>lockstep\<close>, and so does the reaper, whose only access to the room is
  \<open>Del\<close>.
\<close>

lemma lockstep_NewRoom: "lockstep (NewRoom live)"
  by (simp add: lockstep_def NewRoom_def)

lemma lockstep_Del: "lockstep r \<Longrightarrow> lockstep (fst (snd (Del r iden)))"
  by (auto simp: lockstep_def Del_def split: option.splits)

lemma lockstep_exec: "lockstep r \<Longrightarrow> lockstep (room_of c r)"
proof (cases c)
  case (CAdd iden)
  assume "lockstep r"
  then show ?thesis using CAdd
    by (auto simp: lockstep_def room_of_def Add_def Let_def)
next
  case (CGet iden key)
  assume "lockstep r"
  then show ?thesis using CGet
    by (simp add: room_of_def Get_def split: option.splits)
next
  case (CGetBatch iden keys)
  assume "lockstep r"
  then show ?thesis using CGetBatch
    by (simp add: room_of_def GetBatch_def split: option.splits prod.splits)
next
  case (CSet iden key val)
  assume "lockstep r"
  then show ?thesis using CSet
    by (auto simp: lockstep_def room_of_def Set_def Let_def assign_def accessCheck_def
        split: option.splits if_splits)
next
  case (CDel iden)
  assume "lockstep r"
  then show ?thesis using CDel lockstep_Del [of r iden]
    by (simp add: room_of_def)
qed

lemma lockstep_run: "lockstep r \<Longrightarrow> lockstep (run cs r)"
  by (induction cs arbitrary: r) (simp_all add: lockstep_exec)

lemma lockstep_killWatch: "lockstep r \<Longrightarrow> lockstep (killWatch r idens)"
proof (induction idens arbitrary: r)
  case Nil
  then show ?case by simp
next
  case (Cons iden idens)
  from Cons.prems have "lockstep (fst (snd (Del r iden)))" by (rule lockstep_Del)
  then have "lockstep (killWatch (fst (snd (Del r iden))) idens)" by (rule Cons.IH)
  then show ?case by (simp add: split_beta)
qed

text \<open>The same holds step by step when calls, watchers and the reaper interleave.\<close>

lemma lockstep_fire: "lockstep (room s) \<Longrightarrow> fire a s = Some s' \<Longrightarrow> lockstep (room s')"
proof (cases a)
  case (Invoke c)
  assume l: "lockstep (room s)" and f: "fire a s = Some s'"
  from f Invoke have "room s' = room_of c (room s)"
    by (auto simp: room_of_def split: if_splits prod.splits)
  then show ?thesis using l by (simp add: lockstep_exec)
next
  case (Deliver i)
  assume l: "lockstep (room s)" and f: "fire a s = Some s'"
  from f Deliver have "room s' = room s"
    by (auto split: if_splits prod.splits timer.splits)
  then show ?thesis using l by simp
next
  case (Expire i)
  assume l: "lockstep (room s)" and f: "fire a s = Some s'"
  from f Expire have "room s' = room s"
    by (auto split: if_splits prod.splits timer.splits)
  then show ?thesis using l by simp
next
  case Reap
  assume l: "lockstep (room s)" and f: "fire a s = Some s'"
  from f Reap obtain iden where "room s' = killWatch (room s) [iden]"
    by (auto split: option.splits if_splits)
  then show ?thesis using l lockstep_killWatch [of "room s" "[iden]"] by simp
qed

lemma lockstep_play: "lockstep (room s) \<Longrightarrow> play as s = Some s' \<Longrightarrow> lockstep (room s')"
proof (induction as arbitrary: s)
  case Nil
  then show ?case by simp
next
  case (Cons a as)
  from Cons.prems(2) obtain s1 where f: "fire a s = Some s1" and p: "play as s1 = Some s'"
    by (auto split: option.splits)
  from Cons.prems(1) f have "lockstep (room s1)" by (rule lockstep_fire)
  then show ?case using p by (rule Cons.IH)
qed

text \<open>
  Claim C4. The room after any sequence of calls on a new room has the same identifiers
  in \<open>sessions\<close> and in \<open>watchers\<close>; a deletion by the reaper is a \<open>Del\<close> and so one
  of the calls. The same holds in every state the program reaches from a new room by
  steps of callers, watchers and the reaper. Every call and every run of the reaper keeps
  the two maps in step when they were so before. A map holds at most one entry per identifier, so an identifier
  with a session has exactly one watcher channel, and the other way round.
\<close>

theorem lockstep_invariant:
  "lockstep (run cs (NewRoom live)) \<and>
   (play as (boot live) = Some s \<longrightarrow> lockstep (room s)) \<and>
   (lockstep r \<longrightarrow> lockstep (room_of c r) \<and> lockstep (killWatch r idens)) \<and>
   (lockstep r \<longrightarrow> (sessions r iden \<noteq> None \<longleftrightarrow> watchers r iden \<noteq> None))"
proof -
  have "lockstep r \<Longrightarrow> (sessions r iden \<noteq> None \<longleftrightarrow> watchers r iden \<noteq> None)"
    by (auto simp: lockstep_def)
  moreover have "play as (boot live) = Some s \<Longrightarrow> lockstep (room s)"
    using lockstep_play [of "boot live" as s] lockstep_NewRoom [of live]
    by (simp add: boot_def)
  ultimately show ?thesis
    using lockstep_run [OF lockstep_NewRoom] lockstep_exec lockstep_killWatch by blast
qed

theorem lockstep_invariant_witness:
  "lockstep (run [CAdd ''a'', CAdd ''b'', CDel ''a''] (NewRoom 50)) \<and>
   lockstep (room_of (CAdd ''c'') (run [CAdd ''a'', CAdd ''b'', CDel ''a''] (NewRoom 50))) \<and>
   lockstep (killWatch (run [CAdd ''a'', CAdd ''b'', CDel ''a''] (NewRoom 50)) [''a'', ''b'']) \<and>
   sessions (run [CAdd ''a'', CAdd ''b'', CDel ''a''] (NewRoom 50)) ''b'' \<noteq> None \<and>
   watchers (run [CAdd ''a'', CAdd ''b'', CDel ''a''] (NewRoom 50)) ''b'' \<noteq> None \<and>
   sessions (run [CAdd ''a'', CAdd ''b'', CDel ''a''] (NewRoom 50)) ''a'' = None \<and>
   watchers (run [CAdd ''a'', CAdd ''b'', CDel ''a''] (NewRoom 50)) ''a'' = None \<and>
   play [Invoke (CAdd ''a''), Expire 0, Reap] (boot 50) =
     Some \<lparr>room = NewRoom 50\<lparr>made := 1\<rparr>, sender = None,
           timers = [(''a'', Chan 0, Terminated)], reaper = None\<rparr> \<and>
   lockstep (NewRoom 50\<lparr>made := 1\<rparr>)"
  using lockstep_invariant [of "[CAdd ''a'', CAdd ''b'', CDel ''a'']" 50
      "[Invoke (CAdd ''a''), Expire 0, Reap]"
      "\<lparr>room = NewRoom 50\<lparr>made := 1\<rparr>, sender = None,
           timers = [(''a'', Chan 0, Terminated)], reaper = None\<rparr>"
      "run [CAdd ''a'', CAdd ''b'', CDel ''a''] (NewRoom 50)" "CAdd ''c''" "[''a'', ''b'']" "''b''"]
    lockstep_invariant [of "[CAdd ''a'', CAdd ''b'', CDel ''a'']" 50
      "[Invoke (CAdd ''a''), Expire 0, Reap]"
      "\<lparr>room = NewRoom 50\<lparr>made := 1\<rparr>, sender = None,
           timers = [(''a'', Chan 0, Terminated)], reaper = None\<rparr>"
      "run [CAdd ''a'', CAdd ''b'', CDel ''a''] (NewRoom 50)" "CAdd ''c''" "[''a'', ''b'']" "''a''"]
  by (simp add: NewRoom_def room_of_def Add_def Del_def accessCheck_def Let_def watcher_at_def
      boot_def watch_def)

section \<open>Set and Get\<close>

text \<open>
  On a session of a room whose maps agree, \<open>Set\<close> returns no error, writes the one
  entry and pings the session's channel; and \<open>Get\<close> of a key that is in the session
  returns its value.
\<close>

lemma accessCheck_empty_key:
  "lockstep r \<Longrightarrow> sessions r iden \<noteq> None \<Longrightarrow> accessCheck r iden [] = None"
  by (auto simp: accessCheck_def lockstep_def)

lemma Set_ok:
  "lockstep r \<Longrightarrow> sessions r iden \<noteq> None \<Longrightarrow>
   Set r iden key val =
     (None, r\<lparr>sessions := (sessions r)(iden \<mapsto> (session_at r iden)(key \<mapsto> val))\<rparr>,
      [Ping (watcher_at r iden)])"
  by (auto simp: Set_def accessCheck_empty_key Let_def assign_def session_at_def watcher_at_def)

lemma Get_after_write:
  "lockstep r \<Longrightarrow> sessions r iden = Some s \<Longrightarrow> s key = Some val \<Longrightarrow>
   Get r iden key = ((val, None), r, [Ping (watcher_at r iden)])"
  by (auto simp: Get_def accessCheck_def lockstep_def session_at_def value_at_def)

text \<open>
  Claim C6. Let \<open>a\<close> and \<open>b\<close> be two different identifiers with sessions, in a room
  whose maps agree. Then \<open>Set\<close> on \<open>a\<close> succeeds and changes the session of \<open>a\<close> at
  the key and nothing else in the table; after \<open>Set(a, k, v1)\<close> and \<open>Set(b, k, v2)\<close>,
  \<open>Get(a, k)\<close> returns \<open>v1\<close> and \<open>Get(b, k)\<close> returns \<open>v2\<close>; and after a further
  \<open>Set(a, k, v3)\<close>, \<open>Get(a, k)\<close> returns \<open>v3\<close> while \<open>Get(b, k)\<close> still returns
  \<open>v2\<close>. The calls run one after the other with no deletion between them.
\<close>

theorem Set_isolation:
  assumes "lockstep r" and "a \<noteq> b" and "sessions r a \<noteq> None" and "sessions r b \<noteq> None"
  shows "err_of (CSet a k v1) r = None \<and>
         sessions (room_of (CSet a k v1) r) = (sessions r)(a \<mapsto> (session_at r a)(k \<mapsto> v1)) \<and>
         err_of (CSet b k v2) (room_of (CSet a k v1) r) = None \<and>
         fst (Get (run [CSet a k v1, CSet b k v2] r) a k) = (v1, None) \<and>
         fst (Get (run [CSet a k v1, CSet b k v2] r) b k) = (v2, None) \<and>
         fst (Get (run [CSet a k v1, CSet b k v2, CSet a k v3] r) a k) = (v3, None) \<and>
         fst (Get (run [CSet a k v1, CSet b k v2, CSet a k v3] r) b k) = (v2, None)"
proof -
  let ?r1 = "room_of (CSet a k v1) r"
  let ?r2 = "room_of (CSet b k v2) ?r1"
  let ?r3 = "room_of (CSet a k v3) ?r2"
  have r1: "?r1 = r\<lparr>sessions := (sessions r)(a \<mapsto> (session_at r a)(k \<mapsto> v1))\<rparr>"
    and e1: "err_of (CSet a k v1) r = None"
    using assms by (simp_all add: room_of_def err_of_def Set_ok)
  have l1: "lockstep ?r1" using assms(1) by (rule lockstep_exec)
  have b1: "sessions ?r1 b \<noteq> None" using assms r1 by simp
  have r2: "?r2 = ?r1\<lparr>sessions := (sessions ?r1)(b \<mapsto> (session_at ?r1 b)(k \<mapsto> v2))\<rparr>"
    and e2: "err_of (CSet b k v2) ?r1 = None"
    using l1 b1 by (simp_all add: room_of_def err_of_def Set_ok)
  have l2: "lockstep ?r2" using l1 by (rule lockstep_exec)
  have a2: "sessions ?r2 a = Some ((session_at r a)(k \<mapsto> v1))"
    using assms(2) by (simp add: r2) (simp add: r1)
  have b2: "sessions ?r2 b = Some ((session_at ?r1 b)(k \<mapsto> v2))"
    by (simp add: r2)
  have r3: "?r3 = ?r2\<lparr>sessions := (sessions ?r2)(a \<mapsto> (session_at ?r2 a)(k \<mapsto> v3))\<rparr>"
    using l2 a2 by (simp add: room_of_def Set_ok)
  have l3: "lockstep ?r3" using l2 by (rule lockstep_exec)
  have a3: "sessions ?r3 a = Some ((session_at ?r2 a)(k \<mapsto> v3))"
    by (simp add: r3)
  have b3: "sessions ?r3 b = Some ((session_at ?r1 b)(k \<mapsto> v2))"
    using assms(2) b2 by (simp add: r3)
  have "fst (Get ?r2 a k) = (v1, None)"
    using Get_after_write [OF l2 a2, of k v1] by simp
  moreover have "fst (Get ?r2 b k) = (v2, None)"
    using Get_after_write [OF l2 b2, of k v2] by simp
  moreover have "fst (Get ?r3 a k) = (v3, None)"
    using Get_after_write [OF l3 a3, of k v3] by simp
  moreover have "fst (Get ?r3 b k) = (v2, None)"
    using Get_after_write [OF l3 b3, of k v2] by simp
  ultimately show ?thesis using e1 e2 r1 by simp
qed

theorem Set_isolation_witness:
  "lockstep (run [CAdd ''a'', CAdd ''b''] (NewRoom 50)) \<and> ''a'' \<noteq> ''b'' \<and>
   sessions (run [CAdd ''a'', CAdd ''b''] (NewRoom 50)) ''a'' \<noteq> None \<and>
   sessions (run [CAdd ''a'', CAdd ''b''] (NewRoom 50)) ''b'' \<noteq> None \<and>
   fst (Get (run [CAdd ''a'', CAdd ''b'', CSet ''a'' ''k'' ''v1'', CSet ''b'' ''k'' ''v2'']
               (NewRoom 50)) ''a'' ''k'') = (''v1'', None) \<and>
   fst (Get (run [CAdd ''a'', CAdd ''b'', CSet ''a'' ''k'' ''v1'', CSet ''b'' ''k'' ''v2'']
               (NewRoom 50)) ''b'' ''k'') = (''v2'', None) \<and>
   fst (Get (run [CAdd ''a'', CAdd ''b'', CSet ''a'' ''k'' ''v1'', CSet ''b'' ''k'' ''v2'',
                  CSet ''a'' ''k'' ''v3''] (NewRoom 50)) ''a'' ''k'') = (''v3'', None)"
proof -
  have h: "lockstep (run [CAdd ''a'', CAdd ''b''] (NewRoom 50))" "''a'' \<noteq> ''b''"
    "sessions (run [CAdd ''a'', CAdd ''b''] (NewRoom 50)) ''a'' \<noteq> None"
    "sessions (run [CAdd ''a'', CAdd ''b''] (NewRoom 50)) ''b'' \<noteq> None"
    by (simp_all add: lockstep_def NewRoom_def room_of_def Add_def Let_def watcher_at_def)
  show ?thesis
    using h Set_isolation [OF h, of "''k''" "''v1''" "''v2''" "''v3''"] by simp
qed

section \<open>The empty key\<close>

text \<open>
  Claim C10. \<open>Get\<close> with the empty key never returns \<open>ErrKeyDoesntExist\<close>: its error
  is nil or \<open>ErrDoesntExist\<close>, and in a room whose maps agree it is \<open>ErrDoesntExist\<close>
  exactly when the identifier has no session. For an identifier with a session it returns
  the value stored under the empty key, or the empty string when there is none, with a
  nil error; after \<open>Set\<close> of the empty key to a value it returns that value.
\<close>

theorem Get_empty_key:
  "snd (fst (Get r iden [])) \<noteq> Some ErrKeyDoesntExist \<and>
   (snd (fst (Get r iden [])) = None \<or> snd (fst (Get r iden [])) = Some ErrDoesntExist) \<and>
   (lockstep r \<longrightarrow> (snd (fst (Get r iden [])) = Some ErrDoesntExist \<longleftrightarrow> sessions r iden = None)) \<and>
   (lockstep r \<and> sessions r iden = Some s \<longrightarrow>
      fst (Get r iden []) = ((case s [] of None \<Rightarrow> [] | Some v \<Rightarrow> v), None)) \<and>
   (lockstep r \<and> sessions r iden \<noteq> None \<longrightarrow>
      fst (Get (room_of (CSet iden [] val) r) iden []) = (val, None))"
  by (auto simp: Get_def accessCheck_def lockstep_def value_at_def session_at_def room_of_def
      Set_def Let_def assign_def
      split: option.splits)

theorem Get_empty_key_witness:
  "lockstep (room_of (CAdd ''a'') (NewRoom 50)) \<and>
   sessions (room_of (CAdd ''a'') (NewRoom 50)) ''a'' = Some Map.empty \<and>
   fst (Get (room_of (CAdd ''a'') (NewRoom 50)) ''a'' []) = ([], None) \<and>
   fst (Get (room_of (CSet ''a'' [] ''v'') (room_of (CAdd ''a'') (NewRoom 50))) ''a'' []) =
     (''v'', None) \<and>
   sessions (room_of (CAdd ''a'') (NewRoom 50)) ''b'' = None \<and>
   snd (fst (Get (room_of (CAdd ''a'') (NewRoom 50)) ''b'' [])) = Some ErrDoesntExist"
  using Get_empty_key [of "room_of (CAdd ''a'') (NewRoom 50)" "''a''" Map.empty "''v''"]
    Get_empty_key [of "room_of (CAdd ''a'') (NewRoom 50)" "''b''" Map.empty "''v''"]
  by (simp add: lockstep_def NewRoom_def room_of_def Add_def Let_def watcher_at_def)

text \<open>
  Claim C2, at the empty key. After \<open>Add("a")\<close> on a new room the session of \<open>a\<close>
  exists and holds no key at all. \<open>Get("a", "")\<close> returns the empty string and a nil
  error there, not \<open>ErrKeyDoesntExist\<close>; \<open>GetBatch\<close> with the same single key does
  return \<open>ErrKeyDoesntExist\<close>.
\<close>

theorem Get_missing_empty_key_succeeds:
  "sessions (room_of (CAdd ''a'') (NewRoom 50)) ''a'' = Some Map.empty \<and>
   Get (room_of (CAdd ''a'') (NewRoom 50)) ''a'' [] =
     (([], None), room_of (CAdd ''a'') (NewRoom 50), [Ping (Chan 0)]) \<and>
   fst (GetBatch (room_of (CAdd ''a'') (NewRoom 50)) ''a'' [[]]) = (None, Some ErrKeyDoesntExist)"
  by (simp add: room_of_def Add_def Let_def NewRoom_def Get_def GetBatch_def accessCheck_def
      value_at_def session_at_def watcher_at_def)

text \<open>For every other key \<open>Get\<close> does distinguish the three cases.\<close>

lemma Get_nonempty_key:
  assumes "lockstep r" and "key \<noteq> []"
  shows "fst (Get r iden key) =
           (case sessions r iden of
              None \<Rightarrow> ([], Some ErrDoesntExist)
            | Some s \<Rightarrow> (case s key of
                          None \<Rightarrow> ([], Some ErrKeyDoesntExist)
                        | Some v \<Rightarrow> (v, None)))"
  using assms
  by (auto simp: Get_def accessCheck_def lockstep_def session_at_def value_at_def
      split: option.splits)

section \<open>The reaper\<close>

text \<open>
  \<open>Del\<close> fails with \<open>ErrDoesntExist\<close> or not at all, and a failed \<open>Del\<close> leaves the
  room alone. In a room whose maps agree it removes the identifier from both maps, so
  the reaper leaves behind the room without the identifiers it received.
\<close>

lemma Del_err: "fst (Del r iden) = None \<or> fst (Del r iden) = Some ErrDoesntExist"
  by (auto simp: Del_def accessCheck_def split: option.splits)

lemma Del_fail: "fst (Del r iden) = Some err \<Longrightarrow> Del r iden = (Some ErrDoesntExist, r, [])"
  by (auto simp: Del_def accessCheck_def split: option.splits if_splits)

lemma Del_maps:
  assumes "lockstep r"
  shows "sessions (fst (snd (Del r iden))) = (sessions r)(iden := None)"
    and "watchers (fst (snd (Del r iden))) = (watchers r)(iden := None)"
proof -
  have "sessions (fst (snd (Del r iden))) = (sessions r)(iden := None) \<and>
        watchers (fst (snd (Del r iden))) = (watchers r)(iden := None)"
  proof (cases "sessions r iden")
    case None
    with assms have w: "watchers r iden = None" by (auto simp: lockstep_def)
    have "(sessions r)(iden := None) = sessions r" "(watchers r)(iden := None) = watchers r"
      using None w by (simp_all add: fun_upd_idem)
    then show ?thesis using None by (simp add: Del_def accessCheck_def)
  next
    case (Some s)
    with assms have "watchers r iden \<noteq> None" by (auto simp: lockstep_def)
    with Some show ?thesis by (auto simp: Del_def accessCheck_def)
  qed
  then show "sessions (fst (snd (Del r iden))) = (sessions r)(iden := None)"
    and "watchers (fst (snd (Del r iden))) = (watchers r)(iden := None)"
    by simp_all
qed

lemma restrict_after_delete:
  "(m(x := None)) |` (- set xs) = m |` (- set (x # xs))"
  by (auto simp: restrict_map_def fun_eq_iff)

lemma killWatch_maps:
  "lockstep r \<Longrightarrow>
   sessions (killWatch r idens) = sessions r |` (- set idens) \<and>
   watchers (killWatch r idens) = watchers r |` (- set idens)"
proof (induction idens arbitrary: r)
  case Nil
  then show ?case by simp
next
  case (Cons iden idens)
  let ?r' = "fst (snd (Del r iden))"
  have l': "lockstep ?r'" using Cons.prems by (rule lockstep_Del)
  have k: "killWatch r (iden # idens) = killWatch ?r' idens"
    by (simp add: split_beta)
  have "sessions (killWatch ?r' idens) = sessions ?r' |` (- set idens)"
    using Cons.IH [OF l'] by (rule conjunct1)
  also have "\<dots> = ((sessions r)(iden := None)) |` (- set idens)"
    by (simp only: Del_maps(1) [OF Cons.prems])
  also have "\<dots> = sessions r |` (- set (iden # idens))"
    by (rule restrict_after_delete)
  finally have s: "sessions (killWatch ?r' idens) = sessions r |` (- set (iden # idens))" .
  have "watchers (killWatch ?r' idens) = watchers ?r' |` (- set idens)"
    using Cons.IH [OF l'] by (rule conjunct2)
  also have "\<dots> = ((watchers r)(iden := None)) |` (- set idens)"
    by (simp only: Del_maps(2) [OF Cons.prems])
  also have "\<dots> = watchers r |` (- set (iden # idens))"
    by (rule restrict_after_delete)
  finally have w: "watchers (killWatch ?r' idens) = watchers r |` (- set (iden # idens))" .
  show ?case using s w by (simp only: k)
qed

text \<open>
  Claim C9. For each identifier it receives, the reaper runs \<open>Del\<close> on the room. The
  only error \<open>Del\<close> can return is \<open>ErrDoesntExist\<close>; when it does, the reaper goes on
  with the next identifier on the same room, as if the identifier had not been sent. In
  particular, when a \<open>Del\<close> call has already removed the session, the reaper's own
  \<open>Del\<close> of it changes nothing. In a room whose maps agree, the room after the reaper
  has handled a sequence of identifiers is the room without them.
\<close>

theorem killWatch_swallows:
  "(fst (Del r iden) = None \<or> fst (Del r iden) = Some ErrDoesntExist) \<and>
   (fst (Del r iden) \<noteq> None \<longrightarrow> killWatch r (iden # idens) = killWatch r idens) \<and>
   killWatch (room_of (CDel iden) r) [iden] = room_of (CDel iden) r \<and>
   (lockstep r \<longrightarrow>
      sessions (killWatch r idens) = sessions r |` (- set idens) \<and>
      watchers (killWatch r idens) = watchers r |` (- set idens))"
proof -
  have a: "fst (Del r iden) \<noteq> None \<Longrightarrow> killWatch r (iden # idens) = killWatch r idens"
    using Del_fail [of r iden] by auto
  have "fst (Del (room_of (CDel iden) r) iden) = Some ErrDoesntExist"
    by (auto simp: room_of_def Del_def accessCheck_def split: option.splits)
  then have b: "killWatch (room_of (CDel iden) r) [iden] = room_of (CDel iden) r"
    using Del_fail [of "room_of (CDel iden) r" iden] by simp
  show ?thesis using Del_err a b killWatch_maps by blast
qed

theorem killWatch_swallows_witness:
  "fst (Del (run [CAdd ''a'', CAdd ''b'', CDel ''a''] (NewRoom 50)) ''a'') = Some ErrDoesntExist \<and>
   killWatch (run [CAdd ''a'', CAdd ''b'', CDel ''a''] (NewRoom 50)) [''a'', ''b''] =
     killWatch (run [CAdd ''a'', CAdd ''b'', CDel ''a''] (NewRoom 50)) [''b''] \<and>
   lockstep (run [CAdd ''a'', CAdd ''b'', CDel ''a''] (NewRoom 50)) \<and>
   sessions (run [CAdd ''a'', CAdd ''b'', CDel ''a''] (NewRoom 50)) ''b'' \<noteq> None \<and>
   sessions (killWatch (run [CAdd ''a'', CAdd ''b'', CDel ''a''] (NewRoom 50)) [''a'', ''b'']) ''b''
     = None"
  using killWatch_swallows [of "run [CAdd ''a'', CAdd ''b'', CDel ''a''] (NewRoom 50)" "''a''"
      "[''b'']"]
    killWatch_swallows [of "run [CAdd ''a'', CAdd ''b'', CDel ''a''] (NewRoom 50)" "''a''"
      "[''a'', ''b'']"]
  by (simp add: lockstep_def NewRoom_def room_of_def Add_def Del_def accessCheck_def Let_def
      watcher_at_def)

section \<open>The watcher\<close>

text \<open>
  The loop of \<open>watch\<close> and the machine of the specification agree from every value of
  \<open>left\<close>. Once a round has taken the timeout, the result is fixed whatever comes
  after; without a timeout the goroutine is armed and has sent nothing, with the full
  lifetime to wait if it has taken a signal and with the \<open>left\<close> it started from if it
  has not. Only \<open>Add\<close> starts a watcher.
\<close>

lemma watch_loop_run:
  "watch_loop lifetime iden left evs = timer_run lifetime iden (Armed left) evs"
proof (induction evs arbitrary: left)
  case Nil
  then show ?case by simp
next
  case (Cons ev evs)
  have t: "timer_run lifetime iden Terminated es = (Terminated, [])" for es
    by (induction es) simp_all
  show ?case using Cons.IH t by (cases ev) (simp_all add: split_beta)
qed

lemma timer_run_Terminated: "timer_run lifetime iden Terminated evs = (Terminated, [])"
  by (induction evs) simp_all

lemma watch_loop_fired:
  "Timeout \<in> set evs \<Longrightarrow> watch_loop lifetime iden left (evs @ evs') = (Terminated, [iden])"
proof (induction evs arbitrary: left)
  case Nil
  then show ?case by simp
next
  case (Cons ev evs)
  then show ?case by (cases ev) auto
qed

lemma watch_loop_armed:
  "Timeout \<notin> set evs \<Longrightarrow>
   watch_loop lifetime iden left evs =
     (Armed (if Signal \<in> set evs then lifetime else left), [])"
proof (induction evs arbitrary: left)
  case Nil
  then show ?case by simp
next
  case (Cons ev evs)
  then show ?case by (cases ev) auto
qed

lemma Spawn_only_Add:
  "Spawn i c \<in> set (effects_of cl r) \<Longrightarrow> cl = CAdd i \<and> err_of cl r = None"
  by (cases cl)
    (auto simp: effects_of_def err_of_def Add_def Get_def GetBatch_def Set_def Del_def Let_def
      split: option.splits if_splits prod.splits)

text \<open>
  Claim C8. \<open>watch\<close> is the two-state machine. From whatever countdown \<open>left\<close> the loop
  is entered with, and over any sequence of events, it gives what the machine of the
  specification gives from the armed state with that countdown; \<open>watch\<close> itself enters
  with the full lifetime. As long as no timeout has come, the goroutine is armed and has
  sent nothing, and its countdown is the full lifetime as soon as one signal has been
  taken, whatever it was before, and the one it was entered with otherwise; one more
  signal leaves it armed with the full lifetime, and a timeout terminates it with the
  identifier sent. After a timeout the result is the terminated state with the identifier
  sent once, whatever events follow, and the machine never leaves the terminated state
  nor sends there. Never more than one identifier is sent. A watcher is started only by a
  successful \<open>Add\<close>, for the identifier added. The send on \<open>kill\<close> is part of the
  timeout event here: it completes when the reaper receives.
\<close>

theorem watch_two_states:
  "watch_loop lifetime iden left evs = timer_run lifetime iden (Armed left) evs \<and>
   watch lifetime iden evs = watch_loop lifetime iden lifetime evs \<and>
   watch lifetime iden evs = timer_run lifetime iden (Armed lifetime) evs \<and>
   timer_run lifetime iden Terminated evs = (Terminated, []) \<and>
   (Timeout \<notin> set evs \<longrightarrow>
      watch_loop lifetime iden left evs =
        (Armed (if Signal \<in> set evs then lifetime else left), []) \<and>
      watch_loop lifetime iden left (evs @ [Signal]) = (Armed lifetime, []) \<and>
      watch_loop lifetime iden left (evs @ [Timeout]) = (Terminated, [iden])) \<and>
   (Timeout \<in> set evs \<longrightarrow>
      watch_loop lifetime iden left evs = (Terminated, [iden]) \<and>
      watch_loop lifetime iden left (evs @ evs') = watch_loop lifetime iden left evs) \<and>
   length (snd (watch_loop lifetime iden left evs)) \<le> 1 \<and>
   (Spawn i c \<in> set (effects_of cl r) \<longrightarrow> cl = CAdd i \<and> err_of cl r = None)"
proof -
  have f: "Timeout \<in> set evs \<Longrightarrow>
      watch_loop lifetime iden left (evs @ es) = (Terminated, [iden])" for es
    by (rule watch_loop_fired)
  have a: "Timeout \<notin> set evs \<Longrightarrow>
      watch_loop lifetime iden left evs =
        (Armed (if Signal \<in> set evs then lifetime else left), [])"
    by (rule watch_loop_armed)
  have s: "watch_loop lifetime iden left (evs @ [Signal]) = (Armed lifetime, [])"
    if "Timeout \<notin> set evs"
    using that watch_loop_armed [of "evs @ [Signal]" lifetime iden left] by simp
  have t: "watch_loop lifetime iden left (evs @ [Timeout]) = (Terminated, [iden])"
    using watch_loop_fired [of "evs @ [Timeout]" lifetime iden left "[]"] by simp
  have l: "length (snd (watch_loop lifetime iden left evs)) \<le> 1"
    using f [of "[]"] a by (cases "Timeout \<in> set evs") simp_all
  have m: "watch lifetime iden evs = timer_run lifetime iden (Armed lifetime) evs"
    by (simp add: watch_def watch_loop_run)
  show ?thesis
    using f [of "[]"] f [of evs'] a s t l m watch_def [of lifetime iden evs]
      Spawn_only_Add [of i c cl r]
      timer_run_Terminated [of lifetime iden evs] watch_loop_run [of lifetime iden left evs]
    by simp
qed

theorem watch_two_states_witness:
  "watch_loop 50 ''a'' 7 [] = (Armed 7, []) \<and>
   watch_loop 50 ''a'' 7 [Signal] = (Armed 50, []) \<and>
   timer_run 50 ''a'' (Armed 7) [Signal] = (Armed 50, []) \<and>
   watch_loop 50 ''a'' 7 [Timeout] = (Terminated, [''a'']) \<and>
   watch_loop 50 ''a'' 7 [Signal, Signal, Timeout] = (Terminated, [''a'']) \<and>
   watch_loop 50 ''a'' 7 ([Signal, Signal, Timeout] @ [Signal, Timeout]) = (Terminated, [''a'']) \<and>
   watch 50 ''a'' [Signal, Signal] = (Armed 50, []) \<and>
   Spawn ''a'' (Chan 0) \<in> set (effects_of (CAdd ''a'') (NewRoom 50))"
  using watch_two_states [of 50 "''a''" 7 "[]" "[]" "''a''" "Chan 0" "CAdd ''a''" "NewRoom 50"]
    watch_two_states [of 50 "''a''" 7 "[Signal]" "[]"
      "''a''" "Chan 0" "CAdd ''a''" "NewRoom 50"]
    watch_two_states [of 50 "''a''" 7 "[Signal, Signal, Timeout]" "[Signal, Timeout]"
      "''a''" "Chan 0" "CAdd ''a''" "NewRoom 50"]
    watch_two_states [of 50 "''a''" 50 "[Signal, Signal]" "[]"
      "''a''" "Chan 0" "CAdd ''a''" "NewRoom 50"]
  by (simp add: watch_def effects_of_def Add_def NewRoom_def Let_def watcher_at_def)

section \<open>A ping that nobody takes\<close>

text \<open>
  A method stopped in its send on a channel that no armed watcher listens on, while the
  reaper holds an identifier and waits for the mutex, stops the whole program: no step
  is possible.
\<close>

lemma blocked_for_ever:
  assumes "sender s = Some c" and "reaper s \<noteq> None"
    and "\<forall>i < length (timers s). \<forall>iden left. timers s ! i \<noteq> (iden, c, Armed left)"
  shows "fire a s = None"
proof (cases a)
  case (Invoke cl)
  then show ?thesis using assms(1) by simp
next
  case (Deliver i)
  then show ?thesis using assms(1,3)
    by (auto split: prod.splits timer.splits)
next
  case (Expire i)
  then show ?thesis using assms(2)
    by (auto split: prod.splits timer.splits)
next
  case Reap
  then show ?thesis using assms(1) by (simp split: option.splits)
qed

text \<open>
  Claim C1. The claim asks that a ping sent under the mutex never blocks, in particular
  not between the firing of a session's timer and the reaper's delete. The code does
  block there. After \<open>Add("a")\<close>, let the watcher of \<open>a\<close> time out and hand \<open>a\<close> to
  the reaper, and let a caller take the mutex before the reaper does. \<open>Set("a", ...)\<close>
  passes \<open>accessCheck\<close>, as the session is still in the table, and sends on the channel
  of \<open>a\<close>, whose only receiver has returned. The same happens to \<open>Get\<close> of a key that
  an earlier, completed \<open>Set\<close> has stored. In the state reached the session exists, the
  mutex is held by the sender, the reaper waits for it, and no step at all is possible.
\<close>

theorem access_after_expiry_deadlocks:
  "(case play [Invoke (CAdd ''a''), Expire 0, Invoke (CSet ''a'' ''k'' ''v'')] (boot 50) of
      None \<Rightarrow> False
    | Some s \<Rightarrow>
        sessions (room s) ''a'' \<noteq> None \<and> watchers (room s) ''a'' = Some (Chan 0) \<and>
        timers s = [(''a'', Chan 0, Terminated)] \<and> reaper s = Some ''a'' \<and>
        sender s = Some (Chan 0) \<and> (\<forall>a. fire a s = None)) \<and>
   (case play [Invoke (CAdd ''a''), Invoke (CSet ''a'' ''k'' ''v''), Deliver 0, Expire 0,
               Invoke (CGet ''a'' ''k'')] (boot 50) of
      None \<Rightarrow> False
    | Some s \<Rightarrow>
        sessions (room s) ''a'' \<noteq> None \<and> watchers (room s) ''a'' = Some (Chan 0) \<and>
        timers s = [(''a'', Chan 0, Terminated)] \<and> reaper s = Some ''a'' \<and>
        sender s = Some (Chan 0) \<and> (\<forall>a. fire a s = None))"
proof -
  have stuck: "fire a s = None"
    if "sender s = Some (Chan 0)" "reaper s = Some ''a''"
      "timers s = [(''a'', Chan 0, Terminated)]" for a s
    using that by (intro blocked_for_ever [of s "Chan 0"]) simp_all
  have p1: "play [Invoke (CAdd ''a''), Expire 0, Invoke (CSet ''a'' ''k'' ''v'')] (boot 50) \<noteq> None"
    by (simp add: boot_def NewRoom_def Add_def Set_def accessCheck_def Let_def assign_def
        watcher_at_def session_at_def watch_def)
  have p2: "play [Invoke (CAdd ''a''), Invoke (CSet ''a'' ''k'' ''v''), Deliver 0, Expire 0,
               Invoke (CGet ''a'' ''k'')] (boot 50) \<noteq> None"
    by (simp add: boot_def NewRoom_def Add_def Set_def Get_def accessCheck_def Let_def assign_def
        watcher_at_def session_at_def value_at_def watch_def)
  show ?thesis
    using p1 p2
    by (auto simp: boot_def NewRoom_def Add_def Set_def Get_def accessCheck_def Let_def
        assign_def watcher_at_def session_at_def value_at_def watch_def
        intro!: stuck split: option.splits)
qed

end
